theory Spec2Isabelle
  imports Complex_Main "HOL-Library.Sublist"
begin

section \<open>Numbers of the billing engine\<close>

text \<open>
  The engine computes with JavaScript numbers. A finite number is carried here as an
  exact rational (every finite binary64 value is one); the sums, differences, products
  and minima of finite numbers are computed exactly, so the binary64 rounding of each
  single operation, overflow to an infinity and the sign of zero are outside this
  model. A quotient is the one operation of the engine that leaves the finite numbers
  on finite operands (division by zero), so quotients live in \<open>jsnum\<close>, which adds the
  two infinities and NaN.
\<close>

datatype jsnum = Fin rat | PInf | NInf | NaN

text \<open>\<open>x / y\<close> on finite operands: \<open>0 / 0\<close> is NaN, \<open>x / 0\<close> is the infinity with the sign of \<open>x\<close>.\<close>

definition js_div :: "rat \<Rightarrow> rat \<Rightarrow> jsnum" where
  "js_div x y =
     (if y = 0 then (if x = 0 then NaN else if 0 < x then PInf else NInf)
      else Fin (x / y))"

text \<open>\<open>a * y\<close> for a finite \<open>y\<close>: an infinity times zero is NaN, NaN stays NaN.\<close>

definition js_mul :: "jsnum \<Rightarrow> rat \<Rightarrow> jsnum" where
  "js_mul a y =
     (case a of
        Fin x \<Rightarrow> Fin (x * y)
      | PInf \<Rightarrow> (if y = 0 then NaN else if 0 < y then PInf else NInf)
      | NInf \<Rightarrow> (if y = 0 then NaN else if 0 < y then NInf else PInf)
      | NaN \<Rightarrow> NaN)"

text \<open>
  \<open>parseFloat(x.toFixed(2))\<close> on a finite \<open>x\<close>. \<open>toFixed\<close> removes the sign, returns the
  plain decimal expansion of the number itself from \<open>10^21\<close> on, and otherwise picks the
  integer \<open>n\<close> with \<open>n / 100\<close> nearest to the number, the larger one on a tie;
  \<open>parseFloat\<close> reads the digits back.
\<close>

definition toFixed2 :: "rat \<Rightarrow> rat" where
  "toFixed2 x =
     (if 10 ^ 21 \<le> \<bar>x\<bar> then x
      else sgn x * (of_int \<lfloor>\<bar>x\<bar> * 100 + 1 / 2\<rfloor> / 100))"

text \<open>On NaN and the infinities \<open>toFixed\<close> prints their names and \<open>parseFloat\<close> reads them back.\<close>

definition js_toFixed2 :: "jsnum \<Rightarrow> jsnum" where
  "js_toFixed2 a = (case a of Fin x \<Rightarrow> Fin (toFixed2 x) | PInf \<Rightarrow> PInf | NInf \<Rightarrow> NInf | NaN \<Rightarrow> NaN)"

section \<open>The engine and its records\<close>

text \<open>
  The class \<open>FibonacciBilling\<close>: four configuration fields and the sequence cache, the
  only field a method writes. Cycle indices, cycle counts and term lengths are integers.
\<close>

record FibonacciBilling =
  basePrice :: rat
  discountRate :: rat
  capTerm :: bool
  maxTerm :: int
  sequence :: "int list"

record BillingCycleInfo =
  cycle :: int
  termMonths :: int
  baseAmount :: rat
  discount :: rat
  finalAmount :: rat
  savingsAmount :: rat
  effectiveMonthlyRate :: jsnum

record BillingSummary =
  cycles :: int
  totalMonths :: int
  totalAmount :: rat
  totalBaseAmount :: rat
  totalSavings :: rat
  savingsPercentage :: jsnum
  effectiveMonthlyRate :: jsnum

text \<open>
  \<open>options.f || d\<close>: the default \<open>d\<close> replaces an absent field and every falsy value,
  which for a number is zero (and NaN, which therefore never reaches the engine) and for
  a boolean is \<open>false\<close>.
\<close>

definition or_number :: "'a::zero option \<Rightarrow> 'a \<Rightarrow> 'a" where
  "or_number v d = (case v of None \<Rightarrow> d | Some x \<Rightarrow> (if x = 0 then d else x))"

definition or_boolean :: "bool option \<Rightarrow> bool \<Rightarrow> bool" where
  "or_boolean v d = (case v of None \<Rightarrow> d | Some b \<Rightarrow> (if b then b else d))"

text \<open>
  The constructor, its options object given field by field (\<open>None\<close> for a field the
  caller left out) in the order \<open>basePrice\<close>, \<open>discountRate\<close>, \<open>capTerm\<close>, \<open>maxTerm\<close>.
\<close>

definition constructor ::
  "rat option \<Rightarrow> rat option \<Rightarrow> bool option \<Rightarrow> int option \<Rightarrow> FibonacciBilling" where
  "constructor optBasePrice optDiscountRate optCapTerm optMaxTerm =
     \<lparr> basePrice = or_number optBasePrice 10,
       discountRate = or_number optDiscountRate (5 / 100),
       capTerm = or_boolean optCapTerm False,
       maxTerm = or_number optMaxTerm 0,
       sequence = [1, 2, 3, 5, 8, 13, 21, 34, 55, 89, 144] \<rparr>"

text \<open>
  An array read \<open>this.sequence[i]\<close> at an index within the array. Every read of the
  engine is within the array as long as the cache holds two elements; \<open>cache_ok\<close> below
  records it, the constructor establishes it and every method keeps it, and the
  statements that depend on the value of a read assume it.
\<close>

definition seq_at :: "int list \<Rightarrow> int \<Rightarrow> int" where
  "seq_at xs i = xs ! nat i"

definition getNextTerm :: "int \<Rightarrow> FibonacciBilling \<Rightarrow> int \<times> FibonacciBilling" where
  "getNextTerm currentCycle this =
     (if currentCycle < 0 then (seq_at (sequence this) 0, this)
      else
        let this' =
              (if int (length (sequence this)) \<le> currentCycle
               then
                 (let nextFib = seq_at (sequence this) (int (length (sequence this)) - 1) +
                                seq_at (sequence this) (int (length (sequence this)) - 2)
                  in this\<lparr>sequence := sequence this @ [nextFib]\<rparr>)
               else this);
            nextTerm = seq_at (sequence this')
                         (min currentCycle (int (length (sequence this')) - 1))
        in (if capTerm this' \<and> 0 < maxTerm this'
            then (min nextTerm (maxTerm this'), this')
            else (nextTerm, this')))"

definition calculateNextBilling ::
  "int \<Rightarrow> FibonacciBilling \<Rightarrow> BillingCycleInfo \<times> FibonacciBilling" where
  "calculateNextBilling currentCycle this =
     (let (termMonths, this') = getNextTerm currentCycle this;
          baseAmount = basePrice this' * of_int termMonths;
          discount = min (discountRate this' * (of_int termMonths - 1)) (1 / 2);
          discountedAmount = baseAmount * (1 - discount)
      in (\<lparr> cycle = currentCycle + 1,
            termMonths = termMonths,
            baseAmount = toFixed2 baseAmount,
            discount = toFixed2 (discount * 100),
            finalAmount = toFixed2 discountedAmount,
            savingsAmount = toFixed2 (baseAmount - discountedAmount),
            BillingCycleInfo.effectiveMonthlyRate =
              js_toFixed2 (js_div discountedAmount (of_int termMonths)) \<rparr>,
          this'))"

text \<open>
  The \<open>for\<close> loop of \<open>generateBillingSchedule\<close>: \<open>i\<close> counts up to the argument \<open>cycles\<close>
  (written \<open>n\<close> here, \<open>cycles\<close> being a field of the summary record), each pass calls
  \<open>calculateNextBilling(i)\<close> on the engine as the earlier passes left it and pushes the
  record onto \<open>schedule\<close>.
\<close>

function schedule_loop ::
  "int \<Rightarrow> int \<Rightarrow> FibonacciBilling \<Rightarrow> BillingCycleInfo list \<Rightarrow>
   BillingCycleInfo list \<times> FibonacciBilling" where
  "schedule_loop n i this schedule =
     (if i < n
      then schedule_loop n (i + 1) (snd (calculateNextBilling i this))
             (schedule @ [fst (calculateNextBilling i this)])
      else (schedule, this))"
  by pat_completeness auto
termination
  by (relation "measure (\<lambda>(n, i, this, schedule). nat (n - i))") auto

text \<open>The method called with an explicit \<open>cycles\<close> (left out, the argument is 10).\<close>

definition generateBillingSchedule ::
  "int \<Rightarrow> FibonacciBilling \<Rightarrow> BillingCycleInfo list \<times> FibonacciBilling" where
  "generateBillingSchedule n this = schedule_loop n 0 this []"

text \<open>\<open>schedule.reduce((sum, item) => sum + f(item), 0)\<close> is a left fold from zero.\<close>

definition getBillingSummary :: "int \<Rightarrow> FibonacciBilling \<Rightarrow> BillingSummary \<times> FibonacciBilling" where
  "getBillingSummary n this =
     (let (schedule, this') = generateBillingSchedule n this;
          totalMonths = foldl (\<lambda>sum item. sum + termMonths item) 0 schedule;
          totalAmount = foldl (\<lambda>sum item. sum + finalAmount item) 0 schedule;
          totalBaseAmount = foldl (\<lambda>sum item. sum + baseAmount item) 0 schedule;
          totalSavings = foldl (\<lambda>sum item. sum + savingsAmount item) 0 schedule
      in (\<lparr> cycles = n,
            totalMonths = totalMonths,
            totalAmount = toFixed2 totalAmount,
            totalBaseAmount = toFixed2 totalBaseAmount,
            totalSavings = toFixed2 totalSavings,
            savingsPercentage = js_toFixed2 (js_mul (js_div totalSavings totalBaseAmount) 100),
            effectiveMonthlyRate = js_toFixed2 (js_div totalAmount (of_int totalMonths)) \<rparr>,
          this'))"

text \<open>
  The term \<open>getNextTerm\<close> selects before it applies the cap: the method run on the
  engine with \<open>capTerm\<close> switched off.
\<close>

definition uncappedTerm :: "int \<Rightarrow> FibonacciBilling \<Rightarrow> int" where
  "uncappedTerm c this = fst (getNextTerm c (this\<lparr>capTerm := False\<rparr>))"

text \<open>
  The frame of an operation that takes the engine from \<open>this\<close> to \<open>this'\<close>: the four
  configuration fields are the same and the old cache is a prefix of the new one.
\<close>

definition only_appended :: "FibonacciBilling \<Rightarrow> FibonacciBilling \<Rightarrow> bool" where
  "only_appended this this' \<longleftrightarrow>
     basePrice this' = basePrice this \<and> discountRate this' = discountRate this \<and>
     capTerm this' = capTerm this \<and> maxTerm this' = maxTerm this \<and>
     prefix (sequence this) (sequence this') \<and>
     length (sequence this) \<le> length (sequence this')"

text \<open>
  The invariant of the cache: at least two elements, in non-decreasing order, the first
  of them 1. With it every array read of \<open>getNextTerm\<close> is within the array.
\<close>

definition cache_ok :: "FibonacciBilling \<Rightarrow> bool" where
  "cache_ok this \<longleftrightarrow>
     2 \<le> length (sequence this) \<and> sorted (sequence this) \<and> hd (sequence this) = 1"

section \<open>Rounding to cents\<close>

lemma toFixed2_zero: "toFixed2 0 = 0"
  by (simp add: toFixed2_def)

lemma toFixed2_le_50:
  assumes "x \<le> 50"
  shows "toFixed2 x \<le> 50"
proof (cases "10 ^ 21 \<le> \<bar>x\<bar>")
  case True
  then have "toFixed2 x = x" by (simp only: toFixed2_def if_True)
  then show ?thesis using assms by simp
next
  case big: False
  show ?thesis
  proof (cases "0 < x")
    case True
    have "\<bar>x\<bar> * 100 + 1 / 2 < 5001" using True assms by simp
    then have "\<lfloor>\<bar>x\<bar> * 100 + 1 / 2\<rfloor> < 5001" by (simp add: floor_less_iff)
    then have "\<lfloor>\<bar>x\<bar> * 100 + 1 / 2\<rfloor> \<le> 5000" by simp
    then have "(of_int \<lfloor>\<bar>x\<bar> * 100 + 1 / 2\<rfloor> :: rat) \<le> 5000"
      by (metis of_int_le_iff of_int_numeral)
    then show ?thesis using True big by (simp add: toFixed2_def)
  next
    case False
    have "0 \<le> \<bar>x\<bar> * 100 + 1 / 2" by simp
    then have "0 \<le> \<lfloor>\<bar>x\<bar> * 100 + 1 / 2\<rfloor>" by (simp only: zero_le_floor)
    then have nn: "0 \<le> (of_int \<lfloor>\<bar>x\<bar> * 100 + 1 / 2\<rfloor> :: rat) / 100" by simp
    have "sgn x \<le> 0" using False by (simp add: sgn_if)
    from this nn have "sgn x * (of_int \<lfloor>\<bar>x\<bar> * 100 + 1 / 2\<rfloor> / 100) \<le> 0"
      by (rule mult_nonpos_nonneg)
    then show ?thesis using big by (simp add: toFixed2_def)
  qed
qed

section \<open>What one call does to the engine\<close>

lemma getNextTerm_sequence:
  "sequence (snd (getNextTerm c e)) =
     (if 0 \<le> c \<and> int (length (sequence e)) \<le> c
      then sequence e @ [seq_at (sequence e) (int (length (sequence e)) - 1) +
                         seq_at (sequence e) (int (length (sequence e)) - 2)]
      else sequence e)"
  by (simp add: getNextTerm_def Let_def)

lemma getNextTerm_config:
  "basePrice (snd (getNextTerm c e)) = basePrice e"
  "discountRate (snd (getNextTerm c e)) = discountRate e"
  "capTerm (snd (getNextTerm c e)) = capTerm e"
  "maxTerm (snd (getNextTerm c e)) = maxTerm e"
  by (simp_all add: getNextTerm_def Let_def)

lemma calculateNextBilling_snd: "snd (calculateNextBilling c e) = snd (getNextTerm c e)"
  by (simp add: calculateNextBilling_def Let_def split: prod.split)

lemma calculateNextBilling_fst:
  "fst (calculateNextBilling c e) =
     (let t = fst (getNextTerm c e);
          b = basePrice e * of_int t;
          d = min (discountRate e * (of_int t - 1)) (1 / 2);
          a = b * (1 - d)
      in \<lparr> cycle = c + 1, termMonths = t, baseAmount = toFixed2 b,
           discount = toFixed2 (d * 100), finalAmount = toFixed2 a,
           savingsAmount = toFixed2 (b - a),
           BillingCycleInfo.effectiveMonthlyRate = js_toFixed2 (js_div a (of_int t)) \<rparr>)"
  by (simp add: calculateNextBilling_def Let_def case_prod_beta getNextTerm_config)

section \<open>The discount\<close>

text \<open>
  C6. For every engine and every cycle index, the \<open>discount\<close> field of the record that
  \<open>calculateNextBilling\<close> returns is the rounded percentage of the fraction
  \<open>min (discountRate * (termMonths - 1)) 0.5\<close>, it is at most 50, and it is exactly 0 when
  the term is one month.
\<close>

theorem discount_capped:
  "discount (fst (calculateNextBilling c e)) =
     toFixed2 (min (discountRate e *
                    (of_int (termMonths (fst (calculateNextBilling c e))) - 1)) (1 / 2) * 100)
   \<and> discount (fst (calculateNextBilling c e)) \<le> 50
   \<and> (termMonths (fst (calculateNextBilling c e)) = 1 \<longrightarrow>
        discount (fst (calculateNextBilling c e)) = 0)"
proof -
  let ?t = "fst (getNextTerm c e)"
  let ?d = "min (discountRate e * (of_int ?t - 1)) (1 / 2)"
  have d: "discount (fst (calculateNextBilling c e)) = toFixed2 (?d * 100)"
    and t: "termMonths (fst (calculateNextBilling c e)) = ?t"
    by (simp_all add: calculateNextBilling_fst Let_def)
  have "?d * 100 \<le> 50" by simp
  then have le: "toFixed2 (?d * 100) \<le> 50" by (rule toFixed2_le_50)
  have one: "?t = 1 \<Longrightarrow> toFixed2 (?d * 100) = 0"
    by (simp add: toFixed2_zero)
  show ?thesis using le one by (simp add: d t)
qed

theorem discount_capped_witness:
  "termMonths (fst (calculateNextBilling 0 (constructor None None None None))) = 1
   \<and> discount (fst (calculateNextBilling 0 (constructor None None None None))) = 0"
  using discount_capped [of 0 "constructor None None None None"]
  by (simp add: calculateNextBilling_fst getNextTerm_def constructor_def seq_at_def
      or_number_def or_boolean_def)

section \<open>Rounding order in one billing record\<close>

text \<open>
  In the record that \<open>calculateNextBilling\<close> returns, every monetary field is rounded
  on its own from the unrounded intermediates: \<open>savingsAmount\<close> is the unrounded base
  amount minus the unrounded discounted amount, rounded once, and \<open>effectiveMonthlyRate\<close>
  is the unrounded discounted amount divided by the term, rounded. It is not the
  difference of the two rounded fields: at \<open>basePrice = 0.123\<close>, cycle index 1 the
  savings are 0.01 while \<open>baseAmount - finalAmount\<close> is 0.02.
\<close>

lemma savings_rounded_once:
  "(let info = fst (calculateNextBilling c e);
        t = of_int (termMonths info);
        b = basePrice e * t;
        a = b * (1 - min (discountRate e * (t - 1)) (1 / 2))
    in baseAmount info = toFixed2 b
       \<and> finalAmount info = toFixed2 a
       \<and> savingsAmount info = toFixed2 (b - a)
       \<and> BillingCycleInfo.effectiveMonthlyRate info = js_toFixed2 (js_div a t))
   \<and> (let info = fst (calculateNextBilling 1 (constructor (Some (123 / 1000)) None None None))
      in savingsAmount info = 1 / 100
         \<and> baseAmount info - finalAmount info = 2 / 100)"
proof (rule conjI)
  show "let info = fst (calculateNextBilling c e);
            t = of_int (termMonths info);
            b = basePrice e * t;
            a = b * (1 - min (discountRate e * (t - 1)) (1 / 2))
        in baseAmount info = toFixed2 b
           \<and> finalAmount info = toFixed2 a
           \<and> savingsAmount info = toFixed2 (b - a)
           \<and> BillingCycleInfo.effectiveMonthlyRate info = js_toFixed2 (js_div a t)"
    by (simp add: calculateNextBilling_fst Let_def)
next
  have ex: "fst (calculateNextBilling 1 (constructor (Some (123 / 1000)) None None None)) =
     \<lparr> cycle = 2, termMonths = 2, baseAmount = 25 / 100, discount = 5,
       finalAmount = 23 / 100, savingsAmount = 1 / 100,
       BillingCycleInfo.effectiveMonthlyRate = Fin (12 / 100) \<rparr>"
    by code_simp
  show "let info = fst (calculateNextBilling 1 (constructor (Some (123 / 1000)) None None None))
        in savingsAmount info = 1 / 100 \<and> baseAmount info - finalAmount info = 2 / 100"
    unfolding ex by simp
qed

section \<open>The summary of three cycles\<close>

text \<open>
  With \<open>basePrice = 10\<close> and \<open>discountRate = 0.05\<close> the first three cycles cost 10, 19 and
  27 (three months at 10 less 10 percent), so the total is 56 and not 56.5.
\<close>

theorem summary_three_cycles_counterexample:
  "totalAmount (fst (getBillingSummary 3 (constructor (Some 10) (Some (5 / 100)) None None)))
     \<noteq> 565 / 10"
  by code_simp

text \<open>
  C2, amended. On an engine constructed with \<open>basePrice = 10\<close> and \<open>discountRate = 0.05\<close>,
  \<open>getBillingSummary(3)\<close> returns \<open>cycles = 3\<close>, \<open>totalMonths = 6\<close>, \<open>totalAmount = 56\<close>,
  \<open>totalBaseAmount = 60\<close>, \<open>totalSavings = 4\<close>, \<open>savingsPercentage = 6.67\<close> and
  \<open>effectiveMonthlyRate = 9.33\<close>.
\<close>

theorem summary_three_cycles:
  "fst (getBillingSummary 3 (constructor (Some 10) (Some (5 / 100)) None None)) =
     \<lparr> cycles = 3, totalMonths = 6, totalAmount = 56, totalBaseAmount = 60,
       totalSavings = 4, savingsPercentage = Fin (667 / 100),
       effectiveMonthlyRate = Fin (933 / 100) \<rparr>"
  by code_simp

section \<open>Degenerate configuration\<close>

lemma or_number_zero: "or_number (Some 0) d = or_number None d"
  by (simp add: or_number_def)

lemma js_div_by_zero: "js_div x 0 \<noteq> Fin q"
  by (simp add: js_div_def)

lemma js_mul_not_Fin: "(\<And>q. a \<noteq> Fin q) \<Longrightarrow> js_mul a y \<noteq> Fin r"
  by (cases a) (auto simp: js_mul_def)

lemma js_toFixed2_not_Fin: "(\<And>q. a \<noteq> Fin q) \<Longrightarrow> js_toFixed2 a \<noteq> Fin r"
  by (cases a) (auto simp: js_toFixed2_def)

lemma savingsPercentage_eq:
  "savingsPercentage (fst (getBillingSummary n e)) =
     js_toFixed2 (js_mul (js_div
       (foldl (\<lambda>sum item. sum + savingsAmount item) 0 (fst (generateBillingSchedule n e)))
       (foldl (\<lambda>sum item. sum + baseAmount item) 0 (fst (generateBillingSchedule n e)))) 100)"
  by (simp add: getBillingSummary_def Let_def case_prod_beta)

text \<open>
  An engine constructed with \<open>basePrice = 0\<close> does not keep the zero: its summary of
  three cycles has \<open>totalBaseAmount = 60\<close> and the finite \<open>savingsPercentage = 6.67\<close>.
\<close>

theorem zero_basePrice_counterexample:
  "totalBaseAmount (fst (getBillingSummary 3 (constructor (Some 0) None None None))) = 60
   \<and> savingsPercentage (fst (getBillingSummary 3 (constructor (Some 0) None None None)))
       = Fin (667 / 100)"
  by code_simp

text \<open>
  C4, amended. The constructor validates nothing and stores a non-zero \<open>basePrice\<close>
  (a negative one too) unchanged, but a \<open>basePrice\<close> of 0 is falsy and is replaced by
  the default 10: the engine constructed with \<open>basePrice = 0\<close> is the engine constructed
  without a \<open>basePrice\<close>. The division of \<open>getBillingSummary\<close> is unguarded: whenever the
  summed \<open>baseAmount\<close> is 0 the \<open>savingsPercentage\<close> is NaN or an infinity, and for zero
  cycles it is NaN.
\<close>

theorem zero_basePrice_defaulted:
  "constructor (Some 0) dr ct mt = constructor None dr ct mt
   \<and> basePrice (constructor (Some 0) dr ct mt) = 10
   \<and> (b \<noteq> 0 \<longrightarrow> basePrice (constructor (Some b) dr ct mt) = b)
   \<and> (foldl (\<lambda>sum item. sum + baseAmount item) 0 (fst (generateBillingSchedule n e)) = 0 \<longrightarrow>
        (\<forall>q. savingsPercentage (fst (getBillingSummary n e)) \<noteq> Fin q))
   \<and> savingsPercentage (fst (getBillingSummary 0 e)) = NaN"
proof -
  have a: "constructor (Some 0) dr ct mt = constructor None dr ct mt"
    by (simp add: constructor_def or_number_zero)
  have b: "basePrice (constructor (Some 0) dr ct mt) = 10"
    by (simp add: constructor_def or_number_def)
  have c: "b \<noteq> 0 \<Longrightarrow> basePrice (constructor (Some b) dr ct mt) = b"
    by (simp add: constructor_def or_number_def)
  have d: "savingsPercentage (fst (getBillingSummary n e)) \<noteq> Fin q"
    if "foldl (\<lambda>sum item. sum + baseAmount item) 0 (fst (generateBillingSchedule n e)) = 0"
    for q
    unfolding savingsPercentage_eq that
    by (intro js_toFixed2_not_Fin js_mul_not_Fin js_div_by_zero)
  have e: "savingsPercentage (fst (getBillingSummary 0 e)) = NaN"
    by (simp add: savingsPercentage_eq generateBillingSchedule_def js_div_def js_mul_def
        js_toFixed2_def)
  show ?thesis using a b c d e by blast
qed

theorem zero_basePrice_defaulted_witness:
  "(- 5 :: rat) \<noteq> 0
   \<and> basePrice (constructor (Some (- 5)) None None None) = - 5
   \<and> foldl (\<lambda>sum item. sum + baseAmount item) 0
        (fst (generateBillingSchedule 0 (constructor None None None None))) = 0
   \<and> (\<forall>q. savingsPercentage (fst (getBillingSummary 0 (constructor None None None None)))
          \<noteq> Fin q)"
proof -
  have z: "foldl (\<lambda>sum item. sum + baseAmount item) 0
        (fst (generateBillingSchedule 0 (constructor None None None None))) = 0"
    by (simp add: generateBillingSchedule_def)
  show ?thesis
    using zero_basePrice_defaulted [of None None None "- 5" 0 "constructor None None None None"] z
    by simp
qed


section \<open>The frame of the operations\<close>

declare schedule_loop.simps [simp del]

lemma only_appended_refl: "only_appended e e"
  by (simp add: only_appended_def)

lemma only_appended_trans:
  "only_appended e1 e2 \<Longrightarrow> only_appended e2 e3 \<Longrightarrow> only_appended e1 e3"
  unfolding only_appended_def by (auto intro: prefix_order.trans)

lemma getNextTerm_only_appended: "only_appended e (snd (getNextTerm c e))"
  by (simp add: only_appended_def getNextTerm_config getNextTerm_sequence)

lemma calculateNextBilling_only_appended: "only_appended e (snd (calculateNextBilling c e))"
  by (simp add: calculateNextBilling_snd getNextTerm_only_appended)

lemma schedule_loop_only_appended: "only_appended e (snd (schedule_loop n i e acc))"
proof (induction n i e acc rule: schedule_loop.induct)
  case (1 n i this schedule)
  show ?case
  proof (cases "i < n")
    case True
    have "only_appended this (snd (calculateNextBilling i this))"
      by (rule calculateNextBilling_only_appended)
    from this "1.IH" [OF True] show ?thesis
      by (subst schedule_loop.simps) (simp add: True only_appended_trans)
  next
    case False
    then show ?thesis
      by (subst schedule_loop.simps) (simp add: only_appended_refl)
  qed
qed

lemma getBillingSummary_snd: "snd (getBillingSummary n e) = snd (generateBillingSchedule n e)"
  by (simp add: getBillingSummary_def Let_def case_prod_beta)

text \<open>
  C10. Each of the four public operations leaves \<open>basePrice\<close>, \<open>discountRate\<close>, \<open>capTerm\<close>
  and \<open>maxTerm\<close> as they were and changes the cache by appending only: the cache before
  the call is a prefix of the cache after it, which is therefore at least as long.
\<close>

theorem cache_only_grows:
  "only_appended e (snd (getNextTerm c e))
   \<and> only_appended e (snd (calculateNextBilling c e))
   \<and> only_appended e (snd (generateBillingSchedule n e))
   \<and> only_appended e (snd (getBillingSummary n e))"
  by (simp add: getNextTerm_only_appended calculateNextBilling_only_appended
      getBillingSummary_snd generateBillingSchedule_def schedule_loop_only_appended)

section \<open>The schedule\<close>

text \<open>The loop unfolded at its first and at its last pass.\<close>

lemma schedule_loop_done: "\<not> i < n \<Longrightarrow> schedule_loop n i e acc = (acc, e)"
  by (subst schedule_loop.simps) simp

lemma schedule_loop_step:
  "i < n \<Longrightarrow> schedule_loop n i e acc =
     schedule_loop n (i + 1) (snd (calculateNextBilling i e)) (acc @ [fst (calculateNextBilling i e)])"
  by (subst schedule_loop.simps) simp

lemma schedule_loop_snoc:
  "i \<le> m \<Longrightarrow> schedule_loop (m + 1) i e acc =
     (fst (schedule_loop m i e acc) @ [fst (calculateNextBilling m (snd (schedule_loop m i e acc)))],
      snd (calculateNextBilling m (snd (schedule_loop m i e acc))))"
proof (induction m i e acc rule: schedule_loop.induct)
  case (1 n i this schedule)
  show ?case
  proof (cases "i < n")
    case True
    then have "i + 1 \<le> n" by simp
    from "1.IH" [OF True this] show ?thesis
      using True by (simp add: schedule_loop_step)
  next
    case False
    with "1.prems" have "i = n" by simp
    then show ?thesis
      by (simp add: schedule_loop_step schedule_loop_done)
  qed
qed

lemma generateBillingSchedule_nonpos: "n \<le> 0 \<Longrightarrow> generateBillingSchedule n e = ([], e)"
  by (simp add: generateBillingSchedule_def schedule_loop_done)

lemma generateBillingSchedule_Suc:
  "0 \<le> m \<Longrightarrow> generateBillingSchedule (m + 1) e =
     (fst (generateBillingSchedule m e) @
        [fst (calculateNextBilling m (snd (generateBillingSchedule m e)))],
      snd (calculateNextBilling m (snd (generateBillingSchedule m e))))"
  by (simp add: generateBillingSchedule_def schedule_loop_snoc)

lemma cycle_calculateNextBilling: "cycle (fst (calculateNextBilling c e)) = c + 1"
  by (simp add: calculateNextBilling_fst Let_def)

lemma schedule_nat:
  "length (fst (generateBillingSchedule (int k) e)) = k
   \<and> map cycle (fst (generateBillingSchedule (int k) e)) = [1..int k]
   \<and> (\<forall>i<k. fst (generateBillingSchedule (int k) e) ! i =
              fst (calculateNextBilling (int i) (snd (generateBillingSchedule (int i) e))))"
proof (induction k)
  case 0
  show ?case by (simp add: generateBillingSchedule_nonpos)
next
  case (Suc k)
  let ?s = "fst (generateBillingSchedule (int k) e)"
  let ?x = "fst (calculateNextBilling (int k) (snd (generateBillingSchedule (int k) e)))"
  have step: "fst (generateBillingSchedule (int (Suc k)) e) = ?s @ [?x]"
    using generateBillingSchedule_Suc [of "int k" e] by (simp add: add.commute)
  have len: "length ?s = k" using Suc.IH by simp
  have up: "[1..int (Suc k)] = [1..int k] @ [int k + 1]"
    using upto_rec2 [of 1 "int k + 1"] by (simp add: add.commute)
  have nth: "(?s @ [?x]) ! i = fst (calculateNextBilling (int i) (snd (generateBillingSchedule (int i) e)))"
    if "i < Suc k" for i
  proof (cases "i < k")
    case True
    then show ?thesis using Suc.IH len by (simp add: nth_append)
  next
    case False
    with that have "i = k" by simp
    then show ?thesis using len by (simp add: nth_append)
  qed
  show ?case
    unfolding step using Suc.IH len up nth
    by (simp add: cycle_calculateNextBilling)
qed

text \<open>
  The engine the loop hands to pass \<open>i\<close> matters beyond the seeded cache: the thirteenth
  record of a schedule on a fresh engine has the term 377, while \<open>calculateNextBilling(12)\<close>
  asked of the fresh engine itself reports 233.
\<close>

lemma schedule_beyond_cache:
  "termMonths (fst (generateBillingSchedule 13 (constructor None None None None)) ! 12) = 377
   \<and> termMonths (fst (calculateNextBilling 12 (constructor None None None None))) = 233"
  by code_simp

text \<open>
  C8. \<open>generateBillingSchedule(n)\<close> returns \<open>n\<close> records (none for a negative \<open>n\<close>) whose
  \<open>cycle\<close> fields are \<open>1, ..., n\<close> in order, and the record at position \<open>i\<close> (from 0) is
  the one \<open>calculateNextBilling(i)\<close> returns on the engine as the first \<open>i\<close> passes of the
  loop left it.
\<close>

theorem schedule_entries:
  "length (fst (generateBillingSchedule n e)) = nat n
   \<and> map cycle (fst (generateBillingSchedule n e)) = [1..n]
   \<and> (\<forall>i. 0 \<le> i \<and> i < n \<longrightarrow>
         fst (generateBillingSchedule n e) ! nat i =
           fst (calculateNextBilling i (snd (generateBillingSchedule i e))))"
proof (cases "0 \<le> n")
  case True
  then obtain k where n: "n = int k" using nonneg_int_cases by blast
  have ent: "fst (generateBillingSchedule (int k) e) ! nat i =
           fst (calculateNextBilling i (snd (generateBillingSchedule i e)))"
    if "0 \<le> i" "i < int k" for i
  proof -
    from that have "nat i < k" by simp
    with schedule_nat [of k e] have
      "fst (generateBillingSchedule (int k) e) ! nat i =
         fst (calculateNextBilling (int (nat i)) (snd (generateBillingSchedule (int (nat i)) e)))"
      by blast
    then show ?thesis using that by simp
  qed
  have a: "length (fst (generateBillingSchedule (int k) e)) = nat (int k)"
    using schedule_nat [of k e] by simp
  have b: "map cycle (fst (generateBillingSchedule (int k) e)) = [1..int k]"
    using schedule_nat [of k e] by blast
  show ?thesis unfolding n using a b ent by blast
next
  case False
  then have "generateBillingSchedule n e = ([], e)" "nat n = 0" "[1..n] = []"
    by (simp_all add: generateBillingSchedule_nonpos)
  then show ?thesis using False by auto
qed

theorem schedule_entries_witness:
  "(0::int) \<le> 2 \<and> (2::int) < 3
   \<and> length (fst (generateBillingSchedule 3 (constructor None None None None))) = 3
   \<and> map cycle (fst (generateBillingSchedule 3 (constructor None None None None))) = [1, 2, 3]
   \<and> fst (generateBillingSchedule 3 (constructor None None None None)) ! 2 =
       fst (calculateNextBilling 2 (snd (generateBillingSchedule 2 (constructor None None None None))))"
proof -
  let ?e = "constructor None None None None"
  have u: "[1..3::int] = [1, 2, 3]" by code_simp
  have h: "(0::int) \<le> 2 \<and> (2::int) < 3" by simp
  note t = schedule_entries [of 3 ?e]
  from t have len: "length (fst (generateBillingSchedule 3 ?e)) = 3" by simp
  from t u have cyc: "map cycle (fst (generateBillingSchedule 3 ?e)) = [1, 2, 3]" by simp
  from t have "\<forall>i. 0 \<le> i \<and> i < 3 \<longrightarrow>
         fst (generateBillingSchedule 3 ?e) ! nat i =
           fst (calculateNextBilling i (snd (generateBillingSchedule i ?e)))" by blast
  with h have "fst (generateBillingSchedule 3 ?e) ! nat 2 =
           fst (calculateNextBilling 2 (snd (generateBillingSchedule 2 ?e)))" by blast
  then have ent: "fst (generateBillingSchedule 3 ?e) ! 2 =
           fst (calculateNextBilling 2 (snd (generateBillingSchedule 2 ?e)))" by simp
  show ?thesis using h len cyc ent by blast
qed

section \<open>One call of getNextTerm\<close>

lemma uncappedTerm_eq:
  "uncappedTerm c e =
     (if c < 0 then seq_at (sequence e) 0
      else if c < int (length (sequence e)) then seq_at (sequence e) c
      else seq_at (sequence e) (int (length (sequence e)) - 1) +
           seq_at (sequence e) (int (length (sequence e)) - 2))"
proof -
  let ?s = "sequence e"
  let ?x = "seq_at ?s (int (length ?s) - 1) + seq_at ?s (int (length ?s) - 2)"
  consider "c < 0" | "0 \<le> c" "c < int (length ?s)" | "int (length ?s) \<le> c"
    by linarith
  then show ?thesis
  proof cases
    case 1
    then show ?thesis by (simp add: uncappedTerm_def getNextTerm_def)
  next
    case 2
    then have "min c (int (length ?s) - 1) = c" by simp
    then show ?thesis using 2 by (simp add: uncappedTerm_def getNextTerm_def Let_def)
  next
    case 3
    then have "nat (min c (int (length (?s @ [?x])) - 1)) = length ?s" by simp
    then have "seq_at (?s @ [?x]) (min c (int (length (?s @ [?x])) - 1)) = ?x"
      by (simp only: seq_at_def nth_append_length)
    then show ?thesis using 3 by (simp add: uncappedTerm_def getNextTerm_def Let_def)
  qed
qed

lemma getNextTerm_fst:
  "fst (getNextTerm c e) =
     (if 0 \<le> c \<and> capTerm e \<and> 0 < maxTerm e then min (uncappedTerm c e) (maxTerm e)
      else uncappedTerm c e)"
  by (simp add: uncappedTerm_def getNextTerm_def Let_def)

lemma cache_ok_constructor: "cache_ok (constructor bp dr ct mt)"
  by (simp add: cache_ok_def constructor_def)

text \<open>
  Under the invariant the reads at index 0 and at the last two indices are within the
  array; that the read at \<open>min(currentCycle, lastIndex)\<close> is within it as well is part of
  the theorem on one call below.
\<close>

lemma reads_in_range:
  assumes "cache_ok e"
  shows "0 \<le> int (length (sequence e)) - 2"
    and "nat (int (length (sequence e)) - 2) < length (sequence e)"
    and "nat (int (length (sequence e)) - 1) < length (sequence e)"
    and "0 < length (sequence e)"
proof -
  have "2 \<le> length (sequence e)" using assms by (simp add: cache_ok_def)
  then show "0 \<le> int (length (sequence e)) - 2"
    and "nat (int (length (sequence e)) - 2) < length (sequence e)"
    and "nat (int (length (sequence e)) - 1) < length (sequence e)"
    and "0 < length (sequence e)"
    by linarith+
qed

lemma cache_ok_nth_mono:
  "cache_ok e \<Longrightarrow> i \<le> j \<Longrightarrow> j < length (sequence e) \<Longrightarrow> sequence e ! i \<le> sequence e ! j"
  by (simp add: cache_ok_def sorted_nth_mono)

lemma cache_ok_nth_pos:
  assumes "cache_ok e" "i < length (sequence e)"
  shows "1 \<le> sequence e ! i"
proof -
  have "sequence e \<noteq> []" using assms by auto
  then have "hd (sequence e) = sequence e ! 0" by (simp add: hd_conv_nth)
  moreover have "sequence e ! 0 \<le> sequence e ! i"
    using assms by (simp add: cache_ok_nth_mono)
  ultimately show ?thesis using assms(1) by (simp add: cache_ok_def)
qed

lemma two_elements: "2 \<le> length xs \<Longrightarrow> xs \<noteq> [] \<and> butlast xs \<noteq> []"
  by (cases xs) auto

lemma cache_ok_last_two:
  assumes "cache_ok e"
  shows "seq_at (sequence e) (int (length (sequence e)) - 1) = last (sequence e)"
    and "seq_at (sequence e) (int (length (sequence e)) - 2) = last (butlast (sequence e))"
proof -
  have l: "2 \<le> length (sequence e)" using assms by (simp add: cache_ok_def)
  then have ne: "sequence e \<noteq> []" "butlast (sequence e) \<noteq> []"
    using two_elements [of "sequence e"] by simp_all
  have n1: "nat (int (length (sequence e)) - 1) = length (sequence e) - 1" by simp
  have n2: "nat (int (length (sequence e)) - 2) = length (butlast (sequence e)) - 1"
    using l by simp
  show "seq_at (sequence e) (int (length (sequence e)) - 1) = last (sequence e)"
    using ne by (simp add: seq_at_def n1 last_conv_nth)
  have "last (butlast (sequence e)) = butlast (sequence e) ! (length (butlast (sequence e)) - 1)"
    by (rule last_conv_nth [OF ne(2)])
  also have "\<dots> = sequence e ! (length (butlast (sequence e)) - 1)"
    using l by (simp add: nth_butlast)
  finally show "seq_at (sequence e) (int (length (sequence e)) - 2) = last (butlast (sequence e))"
    by (simp only: seq_at_def n2)
qed

lemma nextFib_ge:
  assumes "cache_ok e" "i < length (sequence e)"
  shows "sequence e ! i \<le> seq_at (sequence e) (int (length (sequence e)) - 1) +
                          seq_at (sequence e) (int (length (sequence e)) - 2)"
proof -
  have l: "2 \<le> length (sequence e)" using assms by (simp add: cache_ok_def)
  have n1: "nat (int (length (sequence e)) - 1) = length (sequence e) - 1" by simp
  have n2: "nat (int (length (sequence e)) - 2) = length (sequence e) - 2" using l by simp
  have "sequence e ! i \<le> sequence e ! (length (sequence e) - 1)"
    using assms l by (simp add: cache_ok_nth_mono)
  moreover have "1 \<le> sequence e ! (length (sequence e) - 2)"
    using assms(1) l by (simp add: cache_ok_nth_pos)
  ultimately show ?thesis by (simp add: seq_at_def n1 n2)
qed

lemma cache_ok_getNextTerm:
  assumes "cache_ok e"
  shows "cache_ok (snd (getNextTerm c e))"
proof (cases "0 \<le> c \<and> int (length (sequence e)) \<le> c")
  case True
  let ?x = "seq_at (sequence e) (int (length (sequence e)) - 1) +
            seq_at (sequence e) (int (length (sequence e)) - 2)"
  have s: "sequence (snd (getNextTerm c e)) = sequence e @ [?x]"
    using True by (simp add: getNextTerm_sequence)
  have ne: "sequence e \<noteq> []" using assms by (auto simp: cache_ok_def)
  have "\<forall>y\<in>set (sequence e). y \<le> ?x"
    using nextFib_ge [OF assms] by (auto simp: in_set_conv_nth)
  then have "sorted (sequence e @ [?x])"
    using assms by (simp add: sorted_append cache_ok_def)
  then show ?thesis
    using assms ne unfolding cache_ok_def s by simp
next
  case False
  then have "sequence (snd (getNextTerm c e)) = sequence e"
    by (simp add: getNextTerm_sequence)
  then show ?thesis using assms by (simp add: cache_ok_def)
qed

text \<open>The other operations keep the invariant as well.\<close>

lemma cache_ok_calculateNextBilling:
  "cache_ok e \<Longrightarrow> cache_ok (snd (calculateNextBilling c e))"
  by (simp add: calculateNextBilling_snd cache_ok_getNextTerm)

lemma cache_ok_schedule_loop:
  "cache_ok e \<Longrightarrow> cache_ok (snd (schedule_loop n i e acc))"
proof (induction n i e acc rule: schedule_loop.induct)
  case (1 n i this schedule)
  show ?case
  proof (cases "i < n")
    case True
    have "cache_ok (snd (calculateNextBilling i this))"
      using "1.prems" by (rule cache_ok_calculateNextBilling)
    with "1.IH" [OF True] show ?thesis using True by (simp add: schedule_loop_step)
  next
    case False
    then show ?thesis using "1.prems" by (simp add: schedule_loop_done)
  qed
qed

lemma cache_ok_generateBillingSchedule:
  "cache_ok e \<Longrightarrow> cache_ok (snd (generateBillingSchedule n e))"
  by (simp add: generateBillingSchedule_def cache_ok_schedule_loop)

lemma cache_ok_getBillingSummary:
  "cache_ok e \<Longrightarrow> cache_ok (snd (getBillingSummary n e))"
  by (simp add: getBillingSummary_snd cache_ok_generateBillingSchedule)

lemma uncappedTerm_mono:
  assumes ok: "cache_ok e" and le: "c1 \<le> c2"
  shows "uncappedTerm c1 e \<le> uncappedTerm c2 e"
proof -
  let ?s = "sequence e"
  let ?n = "int (length ?s)"
  let ?x = "seq_at ?s (?n - 1) + seq_at ?s (?n - 2)"
  have l: "2 \<le> length ?s" using ok by (simp add: cache_ok_def)
  consider "c2 < 0" | "c1 < 0" "0 \<le> c2" "c2 < ?n" | "c1 < 0" "?n \<le> c2"
    | "0 \<le> c1" "c2 < ?n" | "0 \<le> c1" "c1 < ?n" "?n \<le> c2" | "?n \<le> c1"
    using le by linarith
  then show ?thesis
  proof cases
    case 1
    then show ?thesis using le by (simp add: uncappedTerm_eq)
  next
    case 2
    then have "?s ! 0 \<le> ?s ! nat c2" using ok by (simp add: cache_ok_nth_mono)
    then show ?thesis using 2 by (simp add: uncappedTerm_eq seq_at_def)
  next
    case 3
    have "0 < length ?s" using l by linarith
    then have "?s ! 0 \<le> ?x" by (rule nextFib_ge [OF ok])
    then show ?thesis using 3 by (simp add: uncappedTerm_eq seq_at_def)
  next
    case 4
    then have "?s ! nat c1 \<le> ?s ! nat c2" using ok le by (simp add: cache_ok_nth_mono)
    then show ?thesis using 4 le by (simp add: uncappedTerm_eq seq_at_def)
  next
    case 5
    then have "?s ! nat c1 \<le> ?x" using ok by (simp add: nextFib_ge)
    then show ?thesis using 5 by (simp add: uncappedTerm_eq seq_at_def)
  next
    case 6
    then show ?thesis using le by (simp add: uncappedTerm_eq)
  qed
qed

lemma uncappedTerm_after_min:
  "uncappedTerm (min c (int (length (sequence e)))) (snd (getNextTerm c e)) = uncappedTerm c e"
proof (cases "0 \<le> c \<and> int (length (sequence e)) \<le> c")
  case True
  let ?s = "sequence e"
  let ?x = "seq_at ?s (int (length ?s) - 1) + seq_at ?s (int (length ?s) - 2)"
  have m: "min c (int (length ?s)) = int (length ?s)" using True by simp
  have s': "sequence (snd (getNextTerm c e)) = ?s @ [?x]"
    using True by (simp add: getNextTerm_sequence)
  have "uncappedTerm (int (length ?s)) (snd (getNextTerm c e)) = seq_at (?s @ [?x]) (int (length ?s))"
    unfolding uncappedTerm_eq s' by simp
  also have "\<dots> = ?x" by (simp add: seq_at_def)
  also have "?x = uncappedTerm c e" using True by (simp add: uncappedTerm_eq)
  finally show ?thesis by (simp only: m)
next
  case False
  then have s: "sequence (snd (getNextTerm c e)) = sequence e"
    by (simp add: getNextTerm_sequence)
  from False have "min c (int (length (sequence e))) = c" by auto
  then show ?thesis using s by (simp add: uncappedTerm_eq)
qed

lemma uncappedTerm_after:
  assumes "c \<le> int (length (sequence e))"
  shows "uncappedTerm c (snd (getNextTerm c e)) = uncappedTerm c e"
proof -
  from assms have "min c (int (length (sequence e))) = c" by simp
  with uncappedTerm_after_min [of c e] show ?thesis by simp
qed

text \<open>
  C1. The claim asks one call of \<open>getNextTerm(currentCycle)\<close> to extend the cache until it
  has \<open>currentCycle + 1\<close> entries and to return the element at that index. The method
  grows the cache by one element only: on a fresh engine \<open>getNextTerm(12)\<close> leaves a cache
  of 12 elements, one short of the 13 that index 12 needs, and returns 233, the element
  at index 11, where the sequence has 377 at index 12 (the schedule of 13 cycles reports
  377 for it, lemma \<open>schedule_beyond_cache\<close>).
\<close>

theorem getNextTerm_stops_short:
  "length (sequence (snd (getNextTerm 12 (constructor None None None None)))) = 12
   \<and> fst (getNextTerm 12 (constructor None None None None)) = 233"
  by code_simp

text \<open>
  What one call does, for every index from 0 on: it appends one element, the sum of the
  last two, when the index is at least the length of the cache, and nothing otherwise,
  and it reads the cache at \<open>min(currentCycle, lastIndex)\<close>, which is within the cache.
\<close>

lemma one_call_appends_once:
  assumes "cache_ok e" and "0 \<le> c"
  shows "sequence (snd (getNextTerm c e)) =
           (if int (length (sequence e)) \<le> c
            then sequence e @ [last (sequence e) + last (butlast (sequence e))]
            else sequence e)
         \<and> (c + 1 \<le> int (length (sequence (snd (getNextTerm c e))))
              \<longleftrightarrow> c \<le> int (length (sequence e)))
         \<and> nat (min c (int (length (sequence (snd (getNextTerm c e)))) - 1))
              < length (sequence (snd (getNextTerm c e)))
         \<and> uncappedTerm c e =
             sequence (snd (getNextTerm c e)) !
               nat (min c (int (length (sequence (snd (getNextTerm c e)))) - 1))
         \<and> fst (getNextTerm c e) =
             (if capTerm e \<and> 0 < maxTerm e then min (uncappedTerm c e) (maxTerm e)
              else uncappedTerm c e)"
proof -
  let ?s = "sequence e"
  let ?s' = "sequence (snd (getNextTerm c e))"
  let ?x = "last ?s + last (butlast ?s)"
  have l: "2 \<le> length ?s" using assms(1) by (simp add: cache_ok_def)
  have s': "?s' = (if int (length ?s) \<le> c then ?s @ [?x] else ?s)"
    using assms(2) by (simp add: getNextTerm_sequence cache_ok_last_two [OF assms(1)])
  have len: "c + 1 \<le> int (length ?s') \<longleftrightarrow> c \<le> int (length ?s)"
    unfolding s' by simp
  have rng: "nat (min c (int (length ?s') - 1)) < length ?s'"
    unfolding s' using l assms(2) by (auto simp: nat_less_iff)
  have sel: "uncappedTerm c e = ?s' ! nat (min c (int (length ?s') - 1))"
  proof (cases "int (length ?s) \<le> c")
    case True
    then have "nat (min c (int (length (?s @ [?x])) - 1)) = length ?s" by simp
    then have "(?s @ [?x]) ! nat (min c (int (length (?s @ [?x])) - 1)) = ?x"
      by (simp only: nth_append_length)
    then show ?thesis
      unfolding s' using True assms(2)
      by (simp add: uncappedTerm_eq cache_ok_last_two [OF assms(1)])
  next
    case False
    then have "min c (int (length ?s) - 1) = c" by simp
    then show ?thesis
      unfolding s' using False assms(2) by (simp add: uncappedTerm_eq seq_at_def)
  qed
  have cap: "fst (getNextTerm c e) =
             (if capTerm e \<and> 0 < maxTerm e then min (uncappedTerm c e) (maxTerm e)
              else uncappedTerm c e)"
    using assms(2) by (simp add: getNextTerm_fst)
  show ?thesis using s' len rng sel cap by blast
qed

section \<open>Calling twice\<close>

text \<open>
  C3. The claim asks two calls of \<open>calculateNextBilling(k)\<close> in succession to return the
  same record. On a fresh engine the first \<open>calculateNextBilling(12)\<close> reports a term of 233
  months and the second one a term of 377 months: the first call has grown the cache by
  one element and the second grows it again.
\<close>

theorem repeated_call_differs:
  "termMonths (fst (calculateNextBilling 12 (constructor None None None None))) = 233
   \<and> termMonths (fst (calculateNextBilling 12
         (snd (calculateNextBilling 12 (constructor None None None None))))) = 377"
  by code_simp

lemma getNextTerm_fst_after:
  assumes "c \<le> int (length (sequence e))"
  shows "fst (getNextTerm c (snd (getNextTerm c e))) = fst (getNextTerm c e)"
  by (simp add: getNextTerm_fst getNextTerm_config uncappedTerm_after [OF assms])

text \<open>
  Up to the first index beyond the cache the second call does return the record of the
  first.
\<close>

lemma repeated_call_same_record:
  assumes "cache_ok e" and "c \<le> int (length (sequence e))"
  shows "fst (calculateNextBilling c (snd (calculateNextBilling c e))) =
         fst (calculateNextBilling c e)"
  by (simp add: calculateNextBilling_fst calculateNextBilling_snd getNextTerm_config
      getNextTerm_fst_after [OF assms(2)])

section \<open>One element per call\<close>

text \<open>
  C5. One call of \<open>getNextTerm\<close> makes the cache at most one element longer, whatever the
  index. On a fresh engine every index from 11 on therefore leaves the cache at its 11
  seeds and 233, and the term selected (before the cap) is 233, the last element of the
  cache. The term reported for an index depends on the calls served before: a fresh
  engine reports 233 for index 12, an engine that has served \<open>getNextTerm(11)\<close> reports 377.
\<close>

theorem at_most_one_append:
  "length (sequence (snd (getNextTerm c e))) \<le> length (sequence e) + 1
   \<and> (11 \<le> c \<longrightarrow>
        sequence (snd (getNextTerm c (constructor bp dr ct mt))) =
          [1, 2, 3, 5, 8, 13, 21, 34, 55, 89, 144, 233]
        \<and> uncappedTerm c (constructor bp dr ct mt) = 233
        \<and> uncappedTerm c (constructor bp dr ct mt) =
            last (sequence (snd (getNextTerm c (constructor bp dr ct mt)))))
   \<and> fst (getNextTerm 12 (constructor None None None None)) = 233
   \<and> fst (getNextTerm 12 (snd (getNextTerm 11 (constructor None None None None)))) = 377"
proof -
  let ?e = "constructor bp dr ct mt"
  have one: "length (sequence (snd (getNextTerm c e))) \<le> length (sequence e) + 1"
    by (simp add: getNextTerm_sequence)
  have s: "sequence ?e = [1, 2, 3, 5, 8, 13, 21, 34, 55, 89, 144]"
    by (simp add: constructor_def)
  have far: "sequence (snd (getNextTerm c ?e)) = [1, 2, 3, 5, 8, 13, 21, 34, 55, 89, 144, 233]
        \<and> uncappedTerm c ?e = 233
        \<and> uncappedTerm c ?e = last (sequence (snd (getNextTerm c ?e)))"
    if "11 \<le> c"
    using that by (simp add: getNextTerm_sequence uncappedTerm_eq s seq_at_def)
  have a: "fst (getNextTerm 12 (constructor None None None None)) = 233"
    by code_simp
  have b: "fst (getNextTerm 12 (snd (getNextTerm 11 (constructor None None None None)))) = 377"
    by code_simp
  show ?thesis using one far a b by blast
qed

theorem at_most_one_append_witness:
  "(11::int) \<le> 15
   \<and> uncappedTerm 15 (constructor None None None None) = 233
   \<and> length (sequence (snd (getNextTerm 15 (constructor None None None None)))) = 12"
proof -
  let ?e = "constructor None None None None"
  have h: "(11::int) \<le> 15" by simp
  note t = at_most_one_append [of 15 ?e None None None None]
  from t h have s: "sequence (snd (getNextTerm 15 ?e)) = [1, 2, 3, 5, 8, 13, 21, 34, 55, 89, 144, 233]"
    and u: "uncappedTerm 15 ?e = 233" by blast+
  show ?thesis using h u by (simp add: s)
qed

section \<open>Monotone terms\<close>

lemma uncappedTerm_neg:
  assumes "cache_ok e" and "c < 0"
  shows "uncappedTerm c e = 1"
proof -
  have "sequence e \<noteq> []" using assms(1) two_elements [of "sequence e"] by (simp add: cache_ok_def)
  then have "sequence e ! 0 = hd (sequence e)" by (simp add: hd_conv_nth)
  then show ?thesis using assms by (simp add: uncappedTerm_eq seq_at_def cache_ok_def)
qed

lemma uncappedTerm_pos:
  assumes "cache_ok e"
  shows "1 \<le> uncappedTerm c e"
proof -
  have "uncappedTerm (min c (- 1)) e \<le> uncappedTerm c e"
    using assms by (rule uncappedTerm_mono) simp
  moreover have "uncappedTerm (min c (- 1)) e = 1"
    using assms by (rule uncappedTerm_neg) simp
  ultimately show ?thesis by simp
qed

lemma getNextTerm_fst_ok:
  assumes "cache_ok e"
  shows "fst (getNextTerm c e) =
     (if capTerm e \<and> 0 < maxTerm e then min (uncappedTerm c e) (maxTerm e)
      else uncappedTerm c e)"
proof (cases "0 \<le> c")
  case True
  then show ?thesis by (simp add: getNextTerm_fst)
next
  case False
  then have "uncappedTerm c e = 1" using assms by (simp add: uncappedTerm_neg)
  then show ?thesis using False by (simp add: getNextTerm_fst)
qed

text \<open>
  C7. The claim asks the term \<open>getNextTerm\<close> returns to be non-decreasing in the cycle
  index. By the growth of one element per call a fresh engine asked for index 13 and then
  for index 12 answers 233 and then 377: the larger index has the smaller term.
\<close>

theorem decreasing_indices:
  "fst (getNextTerm 13 (constructor None None None None)) = 233
   \<and> fst (getNextTerm 12 (snd (getNextTerm 13 (constructor None None None None)))) = 377"
  by code_simp

text \<open>
  Asked of one engine state, or with the smaller index asked first, the terms are
  non-decreasing, and at \<open>maxTerm\<close> once the uncapped term has reached it.
\<close>

lemma term_monotone:
  assumes "cache_ok e" and "c1 \<le> c2"
  shows "fst (getNextTerm c1 e) \<le> fst (getNextTerm c2 e)
         \<and> fst (getNextTerm c1 e) \<le> fst (getNextTerm c2 (snd (getNextTerm c1 e)))
         \<and> (capTerm e \<and> 0 < maxTerm e \<and> maxTerm e \<le> uncappedTerm c1 e \<longrightarrow>
              fst (getNextTerm c1 e) = maxTerm e
              \<and> fst (getNextTerm c2 e) = maxTerm e
              \<and> fst (getNextTerm c2 (snd (getNextTerm c1 e))) = maxTerm e)"
proof -
  let ?e' = "snd (getNextTerm c1 e)"
  have ok': "cache_ok ?e'" using assms(1) by (rule cache_ok_getNextTerm)
  have u: "uncappedTerm c1 e \<le> uncappedTerm c2 e"
    using assms by (rule uncappedTerm_mono)
  have "min c1 (int (length (sequence e))) \<le> c2" using assms(2) by simp
  with ok' have "uncappedTerm (min c1 (int (length (sequence e)))) ?e' \<le> uncappedTerm c2 ?e'"
    by (rule uncappedTerm_mono)
  then have u': "uncappedTerm c1 e \<le> uncappedTerm c2 ?e'"
    by (simp only: uncappedTerm_after_min)
  note f = getNextTerm_fst_ok [OF assms(1)] getNextTerm_fst_ok [OF ok'] getNextTerm_config
  have m1: "fst (getNextTerm c1 e) \<le> fst (getNextTerm c2 e)"
    using u by (auto simp: f)
  have m2: "fst (getNextTerm c1 e) \<le> fst (getNextTerm c2 ?e')"
    using u' by (auto simp: f)
  have cap: "fst (getNextTerm c1 e) = maxTerm e \<and> fst (getNextTerm c2 e) = maxTerm e
             \<and> fst (getNextTerm c2 ?e') = maxTerm e"
    if "capTerm e" "0 < maxTerm e" "maxTerm e \<le> uncappedTerm c1 e"
    using that u u' by (simp add: f)
  show ?thesis using m1 m2 cap by blast
qed

end
